theory Spec2Isabelle
  imports Main "HOL-Library.Word"
begin

unbundle bit_operations_syntax

section \<open>The consistent-hash ring of consistent\_hash.go\<close>

text \<open>
  A shallow embedding of \<^verbatim>\<open>src/consistent_hash.go\<close>. The ring is the struct
  \<^verbatim>\<open>ConsistentHash\<close>; every method takes the ring and returns the ring it leaves behind
  together with its result, since a method that returns an error may already have written
  to the ring. The reader/writer lock is not modelled: every method runs as one step.
\<close>

subsection \<open>Data\<close>

type_synonym uint32 = "32 word"

text \<open>
  \<^verbatim>\<open>type Node interface { Key() string }\<close>: a value of any type that answers \<open>Key\<close>.
  The model keeps the key and an identity that tells apart two values with the same key.
  The nil interface value is \<open>None\<close> of \<open>node option\<close>.
\<close>

datatype node = Node (Key: string) (ident: nat)

text \<open>
  \<^verbatim>\<open>type consistentNode struct { node Node; virtualNodes []uint32 }\<close>. The zero value,
  which Go returns for a key missing from a map, has a nil node and no virtual nodes.
\<close>

record consistentNode =
  node :: "node option"
  virtualNodes :: "uint32 list"

definition zero_consistentNode :: consistentNode where
  "zero_consistentNode = \<lparr>node = None, virtualNodes = []\<rparr>"

text \<open>
  \<^verbatim>\<open>type ConsistentHash struct\<close>. A nil map and an empty map behave alike under every
  operation the source performs on them (lookup, \<open>len\<close>, \<open>delete\<close>; the only writer
  allocates first), and so do a nil and an empty slice, so both are the empty value here.
  The field \<open>hash\<close> is a function value that may be nil.
\<close>

record ConsistentHash =
  hashSortedNodes :: "uint32 list"
  circle :: "uint32 \<rightharpoonup> string"
  nodes :: "string \<rightharpoonup> consistentNode"
  hash :: "(string \<Rightarrow> uint32) option"

text \<open>
  The errors the methods return, by the message the source builds, and \<open>Panic\<close> for a
  run-time panic (a call of a nil function, a nil interface, an index out of range).
\<close>

datatype error =
    NodeIsNil
  | CountLessThanOne
  | DuplicateNode string
  | HashCollision string
  | NodeNotFound string
  | EmptyRing
  | Panic

subsection \<open>Library functions the source calls\<close>

text \<open>
  \<^verbatim>\<open>strconv.Itoa\<close>: the decimal digits of an integer, with a minus sign when negative.
\<close>

definition digit_char :: "nat \<Rightarrow> char" where
  "digit_char d = char_of (48 + d)"

function digits :: "nat \<Rightarrow> string" where
  "digits n = (if n < 10 then [digit_char n] else digits (n div 10) @ [digit_char (n mod 10)])"
  by pat_completeness auto
termination
  by (relation "measure id") auto

declare digits.simps [simp del]

definition Itoa :: "int \<Rightarrow> string" where
  "Itoa i = (if i < 0 then CHR ''-'' # digits (nat (- i)) else digits (nat i))"

text \<open>
  \<^verbatim>\<open>crc32.ChecksumIEEE\<close>: the reflected CRC-32 with polynomial \<open>0xEDB88320\<close>, initial
  value and final complement \<open>0xFFFFFFFF\<close>, computed bit by bit.
\<close>

definition crc32_shift :: "uint32 \<Rightarrow> uint32" where
  "crc32_shift c = (if bit c 0 then drop_bit 1 c XOR 0xEDB88320 else drop_bit 1 c)"

definition crc32_byte :: "uint32 \<Rightarrow> char \<Rightarrow> uint32" where
  "crc32_byte c b = (crc32_shift ^^ 8) (c XOR of_char b)"

definition ChecksumIEEE :: "string \<Rightarrow> uint32" where
  "ChecksumIEEE bs = NOT (foldl crc32_byte 0xFFFFFFFF bs)"

text \<open>
  \<^verbatim>\<open>sort.Search(n, f)\<close>: the binary search of the Go library,
  \<^verbatim>\<open>i, j := 0, n; for i < j { h := (i+j)/2; if !f(h) { i = h+1 } else { j = h } }; return i\<close>.
\<close>

function Search_loop :: "(nat \<Rightarrow> bool) \<Rightarrow> nat \<Rightarrow> nat \<Rightarrow> nat" where
  "Search_loop f i j =
     (if i < j then
        (let h = (i + j) div 2 in
         if \<not> f h then Search_loop f (h + 1) j else Search_loop f i h)
      else i)"
  by pat_completeness auto
termination
  by (relation "measure (\<lambda>(f, i, j). j - i)") auto

declare Search_loop.simps [simp del]

definition Search :: "nat \<Rightarrow> (nat \<Rightarrow> bool) \<Rightarrow> nat" where
  "Search n f = Search_loop f 0 n"

text \<open>
  \<^verbatim>\<open>sort.Slice\<close> with the comparison \<open><\<close> on \<open>uint32\<close>: the ascending rearrangement of
  the slice, which is unique because the elements are compared as a whole.
\<close>

definition sort_Slice :: "uint32 list \<Rightarrow> uint32 list" where
  "sort_Slice xs = sort xs"

subsection \<open>Construction and hashing\<close>

definition NewConsistentHash :: ConsistentHash where
  "NewConsistentHash =
     \<lparr>hashSortedNodes = [], circle = Map.empty, nodes = Map.empty, hash = None\<rparr>"

definition NewConsistentWithCustomHash :: "(string \<Rightarrow> uint32) option \<Rightarrow> ConsistentHash" where
  "NewConsistentWithCustomHash h =
     \<lparr>hashSortedNodes = [], circle = Map.empty, nodes = Map.empty, hash = h\<rparr>"

text \<open>\<^verbatim>\<open>hashKey\<close> calls the field \<open>hash\<close>; calling a nil function panics (\<open>None\<close>).\<close>

definition hashKey :: "ConsistentHash \<Rightarrow> string \<Rightarrow> uint32 option" where
  "hashKey c key = (case hash c of None \<Rightarrow> None | Some h \<Rightarrow> Some (h key))"

subsection \<open>AddWithVirtualNode\<close>

text \<open>
  The inner loop \<^verbatim>\<open>for j := 0; j < 3; j++\<close>: the first of the three candidate positions
  that is not a key of \<open>circle\<close>, or \<open>None\<close> when \<open>virtualKey\<close> stays nil.
\<close>

function retry_loop :: "(string \<Rightarrow> uint32) \<Rightarrow> (uint32 \<rightharpoonup> string) \<Rightarrow> string \<Rightarrow> nat \<Rightarrow> nat
    \<Rightarrow> uint32 option" where
  "retry_loop h circ key i j =
     (if j < 3 then
        (let k = h (key @ Itoa (int i) @ Itoa (int j)) in
         if circ k = None then Some k else retry_loop h circ key i (j + 1))
      else None)"
  by pat_completeness auto
termination
  by (relation "measure (\<lambda>(h, circ, key, i, j). 3 - j)") auto

declare retry_loop.simps [simp del]

text \<open>
  The outer loop \<^verbatim>\<open>for i := 0; i < virtualNodeCount; i++\<close>. It writes each position it
  finds into \<open>circle\<close> at once and collects it in \<open>virtualNodes\<close>; on a collision it returns
  with \<open>circle\<close> as written so far and no list.
\<close>

function add_loop :: "(string \<Rightarrow> uint32) \<Rightarrow> string \<Rightarrow> nat \<Rightarrow> nat \<Rightarrow> (uint32 \<rightharpoonup> string)
    \<Rightarrow> uint32 list \<Rightarrow> (uint32 \<rightharpoonup> string) \<times> uint32 list option" where
  "add_loop h key cnt i circ vns =
     (if i < cnt then
        (case retry_loop h circ key i 0 of
           None \<Rightarrow> (circ, None)
         | Some k \<Rightarrow> add_loop h key cnt (i + 1) (circ(k \<mapsto> key)) (vns @ [k]))
      else (circ, Some vns))"
  by pat_completeness auto
termination
  by (relation "measure (\<lambda>(h, key, cnt, i, circ, vns). cnt - i)") auto

declare add_loop.simps [simp del]

definition install_hash :: "ConsistentHash \<Rightarrow> string \<Rightarrow> uint32" where
  "install_hash c = (case hash c of None \<Rightarrow> ChecksumIEEE | Some h \<Rightarrow> h)"

definition AddWithVirtualNode ::
    "ConsistentHash \<Rightarrow> node option \<Rightarrow> int \<Rightarrow> error option \<times> ConsistentHash" where
  "AddWithVirtualNode c nd virtualNodeCount =
     (case nd of
        None \<Rightarrow> (Some NodeIsNil, c)
      | Some n \<Rightarrow>
          if virtualNodeCount < 1 then (Some CountLessThanOne, c)
          else
            (let h = install_hash c;
                 c1 = c\<lparr>hash := Some h\<rparr>
             in if nodes c1 (Key n) \<noteq> None then (Some (DuplicateNode (Key n)), c1)
                else
                  (case add_loop h (Key n) (nat virtualNodeCount) 0 (circle c1) [] of
                     (circ, None) \<Rightarrow> (Some (HashCollision (Key n)), c1\<lparr>circle := circ\<rparr>)
                   | (circ, Some vns) \<Rightarrow>
                       (None,
                        c1\<lparr>circle := circ,
                           hashSortedNodes := sort_Slice (hashSortedNodes c1 @ vns),
                           nodes := (nodes c1)(Key n \<mapsto> \<lparr>node = Some n, virtualNodes = vns\<rparr>)\<rparr>))))"

definition Add :: "ConsistentHash \<Rightarrow> node option \<Rightarrow> error option \<times> ConsistentHash" where
  "Add c nd = AddWithVirtualNode c nd 1"

subsection \<open>Remove\<close>

text \<open>
  The first loop of \<open>Remove\<close>: \<^verbatim>\<open>delete(c.circle, v)\<close> for every virtual node.
\<close>

fun delete_loop :: "(uint32 \<rightharpoonup> string) \<Rightarrow> uint32 list \<Rightarrow> (uint32 \<rightharpoonup> string)" where
  "delete_loop circ [] = circ"
| "delete_loop circ (v # vs) = delete_loop (circ(v := None)) vs"

text \<open>
  The second loop: a binary search for the first entry \<open>\<ge> v\<close> and the removal of the entry
  at that index. The slice expression \<^verbatim>\<open>c.hashSortedNodes[i+1:]\<close> panics when the search
  found nothing (\<open>i\<close> is the length); the loop then stops with the index as it is.
\<close>

fun remove_loop :: "uint32 list \<Rightarrow> uint32 list \<Rightarrow> bool \<times> uint32 list" where
  "remove_loop hs [] = (True, hs)"
| "remove_loop hs (v # vs) =
     (let i = Search (length hs) (\<lambda>i. hs ! i \<ge> v) in
      if i + 1 > length hs then (False, hs)
      else remove_loop (take i hs @ drop (i + 1) hs) vs)"

definition Remove :: "ConsistentHash \<Rightarrow> node option \<Rightarrow> error option \<times> ConsistentHash" where
  "Remove c nd =
     (case nd of
        None \<Rightarrow> (Some Panic, c)
      | Some n \<Rightarrow>
          (case nodes c (Key n) of
             None \<Rightarrow> (Some (NodeNotFound (Key n)), c)
           | Some cNode \<Rightarrow>
               (let c1 = c\<lparr>nodes := (nodes c)(Key n := None)\<rparr>;
                    c2 = c1\<lparr>circle := delete_loop (circle c1) (virtualNodes cNode)\<rparr>;
                    (ok, hs) = remove_loop (hashSortedNodes c2) (virtualNodes cNode);
                    c3 = c2\<lparr>hashSortedNodes := hs\<rparr>
                in (if ok then None else Some Panic, c3))))"

subsection \<open>GetNode\<close>

definition getPosition :: "ConsistentHash \<Rightarrow> uint32 \<Rightarrow> int" where
  "getPosition c hsh =
     (let hs = hashSortedNodes c;
          i = Search (length hs) (\<lambda>i. hs ! i \<ge> hsh)
      in if i < length hs then
           (if int i = int (length hs) - 1 then 0 else int i)
         else int (length hs) - 1)"

text \<open>
  A lookup of a missing key in a Go map gives the zero value: the empty string for
  \<open>circle\<close>, the zero \<open>consistentNode\<close> for \<open>nodes\<close>.
\<close>

definition circle_at :: "ConsistentHash \<Rightarrow> uint32 \<Rightarrow> string" where
  "circle_at c p = (case circle c p of None \<Rightarrow> [] | Some k \<Rightarrow> k)"

definition nodes_at :: "ConsistentHash \<Rightarrow> string \<Rightarrow> consistentNode" where
  "nodes_at c k = (case nodes c k of None \<Rightarrow> zero_consistentNode | Some e \<Rightarrow> e)"

text \<open>
  \<open>GetNode\<close> returns the error, or the node found, which is nil (\<open>None\<close>) when the
  registry has no entry for the key read from \<open>circle\<close>. Indexing the slice out of range
  panics.
\<close>

definition GetNode :: "ConsistentHash \<Rightarrow> string \<Rightarrow> error + node option" where
  "GetNode c key =
     (if nodes c = Map.empty then Inl EmptyRing
      else
        (case hashKey c key of
           None \<Rightarrow> Inl Panic
         | Some hsh \<Rightarrow>
             (let i = getPosition c hsh in
              if i < 0 \<or> int (length (hashSortedNodes c)) \<le> i then Inl Panic
              else Inr (node (nodes_at c (circle_at c (hashSortedNodes c ! nat i)))))))"

subsection \<open>Reachable rings and what holds in them\<close>

text \<open>
  The fields of the struct are unexported, so a caller gets a ring from one of the two
  constructors and changes it through \<open>AddWithVirtualNode\<close> and \<open>Remove\<close> only, whatever
  these calls return.
\<close>

inductive reachable :: "ConsistentHash \<Rightarrow> bool" where
  new: "reachable NewConsistentHash"
| custom: "reachable (NewConsistentWithCustomHash h)"
| add: "reachable c \<Longrightarrow> reachable (snd (AddWithVirtualNode c nd v))"
| remove: "reachable c \<Longrightarrow> reachable (snd (Remove c nd))"

text \<open>
  The rings built without a custom hash function on which no call of
  \<open>AddWithVirtualNode\<close> has succeeded yet: every such call so far returned an error.
\<close>

inductive unpopulated :: "ConsistentHash \<Rightarrow> bool" where
  fresh: "unpopulated NewConsistentHash"
| add_failed: "unpopulated c \<Longrightarrow> AddWithVirtualNode c nd v = (Some e, c') \<Longrightarrow> unpopulated c'"
| removed: "unpopulated c \<Longrightarrow> unpopulated (snd (Remove c nd))"

text \<open>The sum of the virtual-replica counts of the registered nodes.\<close>

definition replica_total :: "ConsistentHash \<Rightarrow> nat" where
  "replica_total c = (\<Sum>k \<in> dom (nodes c). length (virtualNodes (the (nodes c k))))"

text \<open>
  Every registry entry holds a node with the entry's key and a non-empty list of distinct
  positions, each of which \<open>circle\<close> gives to that key and the index contains.
\<close>

definition registry_ok :: "ConsistentHash \<Rightarrow> bool" where
  "registry_ok c \<longleftrightarrow>
     (\<forall>k e. nodes c k = Some e \<longrightarrow>
        (\<exists>n. node e = Some n \<and> Key n = k) \<and> virtualNodes e \<noteq> [] \<and>
        distinct (virtualNodes e) \<and>
        (\<forall>p \<in> set (virtualNodes e). circle c p = Some k \<and> p \<in> set (hashSortedNodes c)))"

text \<open>Every position of the index belongs to a registry entry.\<close>

definition index_owned :: "ConsistentHash \<Rightarrow> bool" where
  "index_owned c \<longleftrightarrow>
     (\<forall>p \<in> set (hashSortedNodes c). \<exists>k e. nodes c k = Some e \<and> p \<in> set (virtualNodes e))"

definition ring_inv :: "ConsistentHash \<Rightarrow> bool" where
  "ring_inv c \<longleftrightarrow>
     sorted (hashSortedNodes c) \<and> distinct (hashSortedNodes c) \<and>
     finite (dom (nodes c)) \<and> registry_ok c \<and> index_owned c \<and>
     length (hashSortedNodes c) = replica_total c \<and>
     (nodes c \<noteq> Map.empty \<longrightarrow> hash c \<noteq> None)"

subsection \<open>The selection rule of the specification\<close>

text \<open>
  The position the specification lets \<open>Resolve\<close> select, in its words: the smallest entry
  of the index that is \<open>\<ge> h\<close>; position 0 when that entry is the last element; the last
  element when no entry is \<open>\<ge> h\<close>.
\<close>

definition spec_selected_position :: "uint32 list \<Rightarrow> uint32 \<Rightarrow> uint32" where
  "spec_selected_position hs h =
     (let cands = filter (\<lambda>p. h \<le> p) hs in
      if cands = [] then last hs
      else if Min (set cands) = last hs then hs ! 0
      else Min (set cands))"

subsection \<open>Example rings\<close>

definition toy_hash :: "string \<Rightarrow> uint32" where
  "toy_hash s =
     (if s = ''a00'' then 10 else if s = ''b00'' then 20 else if s = ''c00'' then 30
      else if s = ''e00'' then 10 else if s = ''e01'' then 40 else 25)"

definition nodeA :: node where "nodeA = Node ''a'' 1"
definition nodeB :: node where "nodeB = Node ''b'' 2"
definition nodeC :: node where "nodeC = Node ''c'' 3"
definition nodeD :: node where "nodeD = Node ''d'' 4"
definition nodeE :: node where "nodeE = Node ''e'' 5"

definition ring0 :: ConsistentHash where
  "ring0 = NewConsistentWithCustomHash (Some toy_hash)"

definition ringA :: ConsistentHash where
  "ringA = snd (Add ring0 (Some nodeA))"

definition ringAB :: ConsistentHash where
  "ringAB = snd (Add ringA (Some nodeB))"

definition ringABC :: ConsistentHash where
  "ringABC = snd (Add ringAB (Some nodeC))"

section \<open>Properties\<close>

subsection \<open>The binary search on a sorted index\<close>

lemma Search_loop_spec:
  assumes "i \<le> j" "j \<le> n"
    and mono: "\<And>a b. a \<le> b \<Longrightarrow> b < n \<Longrightarrow> f a \<Longrightarrow> f b"
    and lo: "\<And>k. k < i \<Longrightarrow> \<not> f k"
    and hi: "\<And>k. j \<le> k \<Longrightarrow> k < n \<Longrightarrow> f k"
  shows "i \<le> Search_loop f i j \<and> Search_loop f i j \<le> j \<and>
         (\<forall>k < Search_loop f i j. \<not> f k) \<and> (\<forall>k. Search_loop f i j \<le> k \<longrightarrow> k < n \<longrightarrow> f k)"
  using assms
proof (induction f i j rule: Search_loop.induct)
  case (1 f i j)
  show ?case
  proof (cases "i < j")
    case False
    then have eq: "Search_loop f i j = i" by (subst Search_loop.simps) simp
    from False "1.prems"(1) have "i = j" by simp
    with "1.prems" show ?thesis unfolding eq by auto
  next
    case True
    define h where "h = (i + j) div 2"
    have hb: "i \<le> h" "h < j" using True by (auto simp: h_def)
    show ?thesis
    proof (cases "f h")
      case fh: True
      have eq: "Search_loop f i j = Search_loop f i h"
        using True fh by (subst Search_loop.simps) (simp add: h_def Let_def)
      have hi': "\<And>k. h \<le> k \<Longrightarrow> k < n \<Longrightarrow> f k"
        using "1.prems"(3) fh by blast
      have "i \<le> Search_loop f i h \<and> Search_loop f i h \<le> h \<and>
         (\<forall>k < Search_loop f i h. \<not> f k) \<and> (\<forall>k. Search_loop f i h \<le> k \<longrightarrow> k < n \<longrightarrow> f k)"
      proof (rule "1.IH"(2) [OF True h_def])
        show "\<not> \<not> f h" using fh by simp
        show "i \<le> h" by (rule hb)
        show "h \<le> n" using hb "1.prems"(2) by simp
      qed (use "1.prems" hi' in blast)+
      then show ?thesis using eq hb by auto
    next
      case nfh: False
      have eq: "Search_loop f i j = Search_loop f (h + 1) j"
        using True nfh by (subst Search_loop.simps) (simp add: h_def Let_def)
      have lo': "\<And>k. k < h + 1 \<Longrightarrow> \<not> f k"
      proof
        fix k assume "k < h + 1" "f k"
        then have "k \<le> h" "h < n" using hb "1.prems"(2) by auto
        with \<open>f k\<close> "1.prems"(3) have "f h" by blast
        with nfh show False by simp
      qed
      have "h + 1 \<le> Search_loop f (h + 1) j \<and> Search_loop f (h + 1) j \<le> j \<and>
         (\<forall>k < Search_loop f (h + 1) j. \<not> f k) \<and>
         (\<forall>k. Search_loop f (h + 1) j \<le> k \<longrightarrow> k < n \<longrightarrow> f k)"
      proof (rule "1.IH"(1) [OF True h_def nfh])
        show "h + 1 \<le> j" using hb by simp
        show "j \<le> n" by (rule "1.prems"(2))
      qed (use "1.prems" lo' in blast)+
      then show ?thesis using eq hb by auto
    qed
  qed
qed


lemma Search_ge_spec:
  fixes v :: uint32
  assumes "sorted hs"
  shows "Search (length hs) (\<lambda>i. v \<le> hs ! i) \<le> length hs"
    and "\<forall>k < Search (length hs) (\<lambda>i. v \<le> hs ! i). hs ! k < v"
    and "\<forall>k. Search (length hs) (\<lambda>i. v \<le> hs ! i) \<le> k \<longrightarrow> k < length hs \<longrightarrow> v \<le> hs ! k"
proof -
  let ?f = "\<lambda>i. v \<le> hs ! i"
  have mono: "\<And>a b. a \<le> b \<Longrightarrow> b < length hs \<Longrightarrow> ?f a \<Longrightarrow> ?f b"
  proof -
    fix a b assume "a \<le> b" "b < length hs" "v \<le> hs ! a"
    moreover from this assms have "hs ! a \<le> hs ! b" by (simp add: sorted_nth_mono)
    ultimately show "v \<le> hs ! b" by simp
  qed
  have "0 \<le> Search_loop ?f 0 (length hs) \<and>
        Search_loop ?f 0 (length hs) \<le> length hs \<and>
        (\<forall>k < Search_loop ?f 0 (length hs). \<not> ?f k) \<and>
        (\<forall>k. Search_loop ?f 0 (length hs) \<le> k \<longrightarrow> k < length hs \<longrightarrow> ?f k)"
  proof (rule Search_loop_spec [where n = "length hs"])
    show "\<And>a b. a \<le> b \<Longrightarrow> b < length hs \<Longrightarrow> ?f a \<Longrightarrow> ?f b" by (rule mono)
  qed simp_all
  then have *: "Search (length hs) ?f \<le> length hs \<and>
        (\<forall>k < Search (length hs) ?f. \<not> v \<le> hs ! k) \<and>
        (\<forall>k. Search (length hs) ?f \<le> k \<longrightarrow> k < length hs \<longrightarrow> v \<le> hs ! k)"
    unfolding Search_def by blast
  show "Search (length hs) ?f \<le> length hs" using * by blast
  show "\<forall>k < Search (length hs) ?f. hs ! k < v" using * by (simp add: not_le)
  show "\<forall>k. Search (length hs) ?f \<le> k \<longrightarrow> k < length hs \<longrightarrow> v \<le> hs ! k" using * by blast
qed

lemma Search_member:
  fixes v :: uint32
  assumes "sorted hs" "v \<in> set hs"
  shows "Search (length hs) (\<lambda>i. v \<le> hs ! i) < length hs"
    and "hs ! Search (length hs) (\<lambda>i. v \<le> hs ! i) = v"
proof -
  let ?r = "Search (length hs) (\<lambda>i. v \<le> hs ! i)"
  from assms(2) obtain m where m: "m < length hs" "hs ! m = v"
    by (auto simp: in_set_conv_nth)
  have "\<not> m < ?r" using Search_ge_spec(2) [OF assms(1), of v] m by auto
  then have rm: "?r \<le> m" by simp
  with m show lt: "?r < length hs" by simp
  have "v \<le> hs ! ?r" using Search_ge_spec(3) [OF assms(1), of v] lt by blast
  moreover have "hs ! ?r \<le> hs ! m" using assms(1) rm m(1) by (simp add: sorted_nth_mono)
  ultimately show "hs ! ?r = v" using m(2) by simp
qed

lemma delete_at_props:
  assumes "r < length hs" "sorted hs" "distinct hs"
  shows "sorted (take r hs @ drop (r + 1) hs)"
    and "distinct (take r hs @ drop (r + 1) hs)"
    and "set (take r hs @ drop (r + 1) hs) = set hs - {hs ! r}"
    and "length (take r hs @ drop (r + 1) hs) + 1 = length hs"
proof -
  have split: "hs = take r hs @ hs ! r # drop (Suc r) hs"
    using assms(1) by (rule id_take_nth_drop)
  have s: "sorted (take r hs @ hs ! r # drop (Suc r) hs)"
    and d: "distinct (take r hs @ hs ! r # drop (Suc r) hs)"
    using assms(2,3) split by simp_all
  show "sorted (take r hs @ drop (r + 1) hs)"
    using s by (auto simp: sorted_append)
  show "distinct (take r hs @ drop (r + 1) hs)"
    using d by auto
  have "set hs = set (take r hs @ hs ! r # drop (Suc r) hs)"
    using split by simp
  then show "set (take r hs @ drop (r + 1) hs) = set hs - {hs ! r}"
    using d by auto
  show "length (take r hs @ drop (r + 1) hs) + 1 = length hs"
    using assms(1) by simp
qed

lemma remove_loop_spec:
  assumes "sorted hs" "distinct hs" "distinct vs" "set vs \<subseteq> set hs"
  shows "\<exists>hs'. remove_loop hs vs = (True, hs') \<and> sorted hs' \<and> distinct hs' \<and>
           set hs' = set hs - set vs \<and> length hs' + length vs = length hs"
  using assms
proof (induction vs arbitrary: hs)
  case Nil
  then show ?case by simp
next
  case (Cons v vs)
  let ?r = "Search (length hs) (\<lambda>i. v \<le> hs ! i)"
  let ?hs = "take ?r hs @ drop (?r + 1) hs"
  have vin: "v \<in> set hs" using Cons.prems(4) by simp
  have r: "?r < length hs" "hs ! ?r = v"
    using Search_member [OF Cons.prems(1) vin] by simp_all
  note dp = delete_at_props [OF r(1) Cons.prems(1,2)]
  have sub: "set vs \<subseteq> set ?hs"
    using Cons.prems(3,4) dp(3) r(2) by auto
  from Cons.IH [OF dp(1,2) _ sub] Cons.prems(3)
  obtain hs' where hs': "remove_loop ?hs vs = (True, hs')" "sorted hs'" "distinct hs'"
    "set hs' = set ?hs - set vs" "length hs' + length vs = length ?hs"
    by auto
  have "remove_loop hs (v # vs) = (True, hs')"
    using r(1) hs'(1) by (simp add: Let_def)
  moreover have "set hs' = set hs - set (v # vs)"
    using hs'(4) dp(3) r(2) by auto
  moreover have "length hs' + length (v # vs) = length hs"
    using hs'(5) dp(4) by simp
  ultimately show ?case using hs'(2,3) by blast
qed

subsection \<open>The loops of AddWithVirtualNode\<close>

lemma retry_loop_step:
  "j < 3 \<Longrightarrow> retry_loop h circ key i j =
     (if circ (h (key @ Itoa (int i) @ Itoa (int j))) = None
      then Some (h (key @ Itoa (int i) @ Itoa (int j)))
      else retry_loop h circ key i (Suc j))"
  by (subst retry_loop.simps) (simp add: Let_def)

lemma retry_loop_end: "\<not> j < 3 \<Longrightarrow> retry_loop h circ key i j = None"
  by (subst retry_loop.simps) simp

lemma retry_loop_unfold:
  "retry_loop h circ key i 0 =
     (if circ (h (key @ Itoa (int i) @ Itoa 0)) = None then Some (h (key @ Itoa (int i) @ Itoa 0))
      else if circ (h (key @ Itoa (int i) @ Itoa 1)) = None then Some (h (key @ Itoa (int i) @ Itoa 1))
      else if circ (h (key @ Itoa (int i) @ Itoa 2)) = None then Some (h (key @ Itoa (int i) @ Itoa 2))
      else None)"
  by (simp add: retry_loop_step retry_loop_end)

lemma retry_loop_Some:
  assumes "retry_loop h circ key i 0 = Some k"
  shows "\<exists>j<3. k = h (key @ Itoa (int i) @ Itoa (int j)) \<and> circ k = None \<and>
           (\<forall>j'<j. circ (h (key @ Itoa (int i) @ Itoa (int j'))) \<noteq> None)"
proof -
  let ?c = "\<lambda>j. h (key @ Itoa (int i) @ Itoa (int j))"
  consider (a) "circ (?c 0) = None" "k = ?c 0"
    | (b) "circ (?c 0) \<noteq> None" "circ (?c 1) = None" "k = ?c 1"
    | (c) "circ (?c 0) \<noteq> None" "circ (?c 1) \<noteq> None" "circ (?c 2) = None" "k = ?c 2"
    using assms by (auto simp: retry_loop_unfold split: if_splits)
  then show ?thesis
  proof cases
    case a
    then show ?thesis by (intro exI [of _ 0]) simp
  next
    case b
    then show ?thesis by (intro exI [of _ 1]) simp
  next
    case c
    have "\<forall>j'<2. circ (?c j') \<noteq> None"
      using c(1,2) by (auto simp: less_Suc_eq numeral_2_eq_2)
    with c show ?thesis by (intro exI [of _ 2]) simp
  qed
qed

lemma add_loop_step:
  "i < cnt \<Longrightarrow> add_loop h key cnt i circ vns =
     (case retry_loop h circ key i 0 of
        None \<Rightarrow> (circ, None)
      | Some k \<Rightarrow> add_loop h key cnt (i + 1) (circ(k \<mapsto> key)) (vns @ [k]))"
  by (subst add_loop.simps) simp

lemma add_loop_end: "\<not> i < cnt \<Longrightarrow> add_loop h key cnt i circ vns = (circ, Some vns)"
  by (subst add_loop.simps) simp

lemma add_loop_map_le:
  "add_loop h key cnt i circ vns = (circ', r) \<Longrightarrow> circ \<subseteq>\<^sub>m circ'"
proof (induction h key cnt i circ vns rule: add_loop.induct)
  case (1 h key cnt i circ vns)
  show ?case
  proof (cases "i < cnt")
    case False
    with "1.prems" show ?thesis by (simp add: add_loop_end)
  next
    case True
    show ?thesis
    proof (cases "retry_loop h circ key i 0")
      case None
      with True "1.prems" show ?thesis by (simp add: add_loop_step)
    next
      case (Some k)
      then have free: "circ k = None" using retry_loop_Some by blast
      have "add_loop h key cnt (i + 1) (circ(k \<mapsto> key)) (vns @ [k]) = (circ', r)"
        using True Some "1.prems" by (simp add: add_loop_step)
      from "1.IH" [OF True Some this] have "circ(k \<mapsto> key) \<subseteq>\<^sub>m circ'" .
      moreover have "circ \<subseteq>\<^sub>m circ(k \<mapsto> key)"
        using free by (auto simp: map_le_def)
      ultimately show ?thesis by (rule map_le_trans [rotated])
    qed
  qed
qed

lemma add_loop_Some:
  assumes "add_loop h key cnt i circ vns = (circ', Some ps)" "i \<le> cnt"
  shows "\<exists>new. ps = vns @ new \<and> length new = cnt - i \<and> distinct new \<and>
           set new \<inter> dom circ = {} \<and>
           circ' = (\<lambda>p. if p \<in> set new then Some key else circ p) \<and>
           (\<forall>m<length new. \<exists>j<3. new ! m = h (key @ Itoa (int (i + m)) @ Itoa (int j)) \<and>
              (\<forall>j'<j. h (key @ Itoa (int (i + m)) @ Itoa (int j')) \<in> dom circ \<union> set (take m new)))"
  using assms
proof (induction h key cnt i circ vns rule: add_loop.induct)
  case (1 h key cnt i circ vns)
  show ?case
  proof (cases "i < cnt")
    case False
    with "1.prems" show ?thesis by (simp add: add_loop_end)
  next
    case True
    from True "1.prems"(1) obtain k where k: "retry_loop h circ key i 0 = Some k"
      by (cases "retry_loop h circ key i 0") (simp_all add: add_loop_step)
    from retry_loop_Some [OF k] obtain j where j: "j < 3"
      "k = h (key @ Itoa (int i) @ Itoa (int j))" "circ k = None"
      "\<forall>j'<j. circ (h (key @ Itoa (int i) @ Itoa (int j'))) \<noteq> None"
      by blast
    have rec: "add_loop h key cnt (i + 1) (circ(k \<mapsto> key)) (vns @ [k]) = (circ', Some ps)"
      using True k "1.prems"(1) by (simp add: add_loop_step)
    have le: "i + 1 \<le> cnt" using True by simp
    from "1.IH" [OF True k rec le] obtain new where new:
      "ps = (vns @ [k]) @ new" "length new = cnt - (i + 1)" "distinct new"
      "set new \<inter> dom (circ(k \<mapsto> key)) = {}"
      "circ' = (\<lambda>p. if p \<in> set new then Some key else (circ(k \<mapsto> key)) p)"
      "\<forall>m<length new. \<exists>j<3. new ! m = h (key @ Itoa (int (i + 1 + m)) @ Itoa (int j)) \<and>
          (\<forall>j'<j. h (key @ Itoa (int (i + 1 + m)) @ Itoa (int j'))
                    \<in> dom (circ(k \<mapsto> key)) \<union> set (take m new))"
      by blast
    let ?new = "k # new"
    have p1: "ps = vns @ ?new" using new(1) by simp
    have p2: "length ?new = cnt - i" using new(2) True by simp
    have knew: "k \<notin> set new" using new(4) by auto
    have p3: "distinct ?new" using new(3) knew by simp
    have p4: "set ?new \<inter> dom circ = {}" using new(4) j(3) by auto
    have p5: "circ' = (\<lambda>p. if p \<in> set ?new then Some key else circ p)"
      unfolding new(5) by (rule ext) simp
    have p6: "\<forall>m<length ?new. \<exists>j<3. ?new ! m = h (key @ Itoa (int (i + m)) @ Itoa (int j)) \<and>
              (\<forall>j'<j. h (key @ Itoa (int (i + m)) @ Itoa (int j')) \<in> dom circ \<union> set (take m ?new))"
    proof (intro allI impI)
      fix m assume m: "m < length ?new"
      show "\<exists>j<3. ?new ! m = h (key @ Itoa (int (i + m)) @ Itoa (int j)) \<and>
              (\<forall>j'<j. h (key @ Itoa (int (i + m)) @ Itoa (int j')) \<in> dom circ \<union> set (take m ?new))"
      proof (cases m)
        case 0
        have "\<forall>j'<j. h (key @ Itoa (int i) @ Itoa (int j')) \<in> dom circ"
          using j(4) by (auto simp: dom_def)
        with j(1,2) 0 show ?thesis by (intro exI [of _ j]) simp
      next
        case (Suc m')
        with m have "m' < length new" by simp
        with new(6) obtain j2 where j2: "j2 < 3"
          "new ! m' = h (key @ Itoa (int (i + 1 + m')) @ Itoa (int j2))"
          "\<forall>j'<j2. h (key @ Itoa (int (i + 1 + m')) @ Itoa (int j'))
                    \<in> dom (circ(k \<mapsto> key)) \<union> set (take m' new)"
          by blast
        have eq: "i + 1 + m' = i + m" using Suc by simp
        have "dom (circ(k \<mapsto> key)) \<union> set (take m' new) = dom circ \<union> set (take m ?new)"
          using Suc by auto
        with j2 eq Suc show ?thesis by (intro exI [of _ j2]) simp
      qed
    qed
    from p1 p2 p3 p4 p5 p6 show ?thesis by blast
  qed
qed

subsection \<open>The outcomes of AddWithVirtualNode and Remove\<close>

lemma Add_unfold:
  "AddWithVirtualNode c (Some n) v =
     (if v < 1 then (Some CountLessThanOne, c)
      else if nodes c (Key n) \<noteq> None
        then (Some (DuplicateNode (Key n)), c\<lparr>hash := Some (install_hash c)\<rparr>)
      else
        (case add_loop (install_hash c) (Key n) (nat v) 0 (circle c) [] of
           (circ, None) \<Rightarrow>
             (Some (HashCollision (Key n)), c\<lparr>hash := Some (install_hash c), circle := circ\<rparr>)
         | (circ, Some vns) \<Rightarrow>
             (None,
              c\<lparr>hash := Some (install_hash c), circle := circ,
                hashSortedNodes := sort_Slice (hashSortedNodes c @ vns),
                nodes := (nodes c)(Key n \<mapsto> \<lparr>node = Some n, virtualNodes = vns\<rparr>)\<rparr>)))"
  by (simp add: AddWithVirtualNode_def Let_def)

lemma Add_nil: "AddWithVirtualNode c None v = (Some NodeIsNil, c)"
  by (simp add: AddWithVirtualNode_def)

lemma Add_success:
  assumes "AddWithVirtualNode c nd v = (None, c')"
  shows "\<exists>n ps. nd = Some n \<and> 1 \<le> v \<and> nodes c (Key n) = None \<and>
           add_loop (install_hash c) (Key n) (nat v) 0 (circle c) [] = (circle c', Some ps) \<and>
           c' = c\<lparr>hash := Some (install_hash c), circle := circle c',
                  hashSortedNodes := sort_Slice (hashSortedNodes c @ ps),
                  nodes := (nodes c)(Key n \<mapsto> \<lparr>node = Some n, virtualNodes = ps\<rparr>)\<rparr>"
proof (cases nd)
  case None
  with assms show ?thesis by (simp add: Add_nil)
next
  case (Some n)
  obtain circ r where al: "add_loop (install_hash c) (Key n) (nat v) 0 (circle c) [] = (circ, r)"
    by (cases "add_loop (install_hash c) (Key n) (nat v) 0 (circle c) []") blast
  from assms Some have v: "\<not> v < 1"
    by (simp add: Add_unfold split: if_splits)
  from assms Some v have free: "nodes c (Key n) = None"
    by (simp add: Add_unfold split: if_splits)
  from assms Some v free al obtain ps where ps: "r = Some ps"
    by (cases r) (simp_all add: Add_unfold)
  from assms Some v free al ps
  have c': "c' = c\<lparr>hash := Some (install_hash c), circle := circ,
                  hashSortedNodes := sort_Slice (hashSortedNodes c @ ps),
                  nodes := (nodes c)(Key n \<mapsto> \<lparr>node = Some n, virtualNodes = ps\<rparr>)\<rparr>"
    by (simp add: Add_unfold)
  then have "circle c' = circ" by simp
  with c' al ps Some v free show ?thesis by auto
qed

lemma Add_failure:
  assumes "AddWithVirtualNode c nd v = (Some e, c')"
  shows "hashSortedNodes c' = hashSortedNodes c \<and> nodes c' = nodes c \<and>
         circle c \<subseteq>\<^sub>m circle c' \<and> (hash c' = hash c \<or> hash c' = Some (install_hash c))"
proof (cases nd)
  case None
  with assms show ?thesis by (simp add: Add_nil)
next
  case (Some n)
  obtain circ r where al: "add_loop (install_hash c) (Key n) (nat v) 0 (circle c) [] = (circ, r)"
    by (cases "add_loop (install_hash c) (Key n) (nat v) 0 (circle c) []") blast
  then have le: "circle c \<subseteq>\<^sub>m circ" by (rule add_loop_map_le)
  show ?thesis
  proof (cases "v < 1")
    case True
    with assms Some show ?thesis by (simp add: Add_unfold)
  next
    case v: False
    show ?thesis
    proof (cases "nodes c (Key n)")
      case (Some a)
      with assms \<open>nd = Some n\<close> v show ?thesis by (auto simp: Add_unfold)
    next
      case None
      with assms \<open>nd = Some n\<close> v al have "r = None"
        by (cases r) (simp_all add: Add_unfold)
      with assms \<open>nd = Some n\<close> v al None
      have "c' = c\<lparr>hash := Some (install_hash c), circle := circ\<rparr>"
        by (simp add: Add_unfold)
      with le show ?thesis by simp
    qed
  qed
qed

lemma delete_loop_eq: "delete_loop circ vs = (\<lambda>p. if p \<in> set vs then None else circ p)"
  by (induction vs arbitrary: circ) (auto simp: fun_eq_iff)

lemma Remove_nil: "Remove c None = (Some Panic, c)"
  by (simp add: Remove_def)

lemma Remove_missing:
  "nodes c (Key n) = None \<Longrightarrow> Remove c (Some n) = (Some (NodeNotFound (Key n)), c)"
  by (simp add: Remove_def)

lemma Remove_found:
  assumes "nodes c (Key n) = Some e"
    and "remove_loop (hashSortedNodes c) (virtualNodes e) = (ok, hs)"
  shows "Remove c (Some n) =
     (if ok then None else Some Panic,
      c\<lparr>nodes := (nodes c)(Key n := None),
        circle := delete_loop (circle c) (virtualNodes e),
        hashSortedNodes := hs\<rparr>)"
  using assms by (simp add: Remove_def Let_def)

lemma index_in_circle:
  assumes "registry_ok c" "index_owned c" "p \<in> set (hashSortedNodes c)"
  shows "\<exists>k e. nodes c k = Some e \<and> p \<in> set (virtualNodes e) \<and> circle c p = Some k"
proof -
  from assms(2,3) obtain k e where "nodes c k = Some e" "p \<in> set (virtualNodes e)"
    unfolding index_owned_def by blast
  moreover from this assms(1) have "circle c p = Some k"
    unfolding registry_ok_def by blast
  ultimately show ?thesis by blast
qed

subsection \<open>The invariant under AddWithVirtualNode\<close>

lemma ring_inv_new: "ring_inv (NewConsistentWithCustomHash h)"
  by (simp add: ring_inv_def NewConsistentWithCustomHash_def registry_ok_def index_owned_def
      replica_total_def)

lemma ring_inv_new0: "ring_inv NewConsistentHash"
  by (simp add: ring_inv_def NewConsistentHash_def registry_ok_def index_owned_def
      replica_total_def)

lemma ring_inv_Add_failure:
  assumes inv: "ring_inv c" and add: "AddWithVirtualNode c nd v = (Some e, c')"
  shows "ring_inv c'"
proof -
  from Add_failure [OF add] have eq: "hashSortedNodes c' = hashSortedNodes c"
    "nodes c' = nodes c" and le: "circle c \<subseteq>\<^sub>m circle c'"
    and h: "hash c' = hash c \<or> hash c' = Some (install_hash c)"
    by simp_all
  have keep: "\<And>p k. circle c p = Some k \<Longrightarrow> circle c' p = Some k"
    using le by (metis domI map_le_def)
  have "registry_ok c'"
    using inv keep unfolding ring_inv_def registry_ok_def eq by blast
  moreover have "index_owned c'"
    using inv unfolding ring_inv_def index_owned_def eq by blast
  moreover have "replica_total c' = replica_total c"
    by (simp add: replica_total_def eq)
  moreover have "nodes c' \<noteq> Map.empty \<longrightarrow> hash c' \<noteq> None"
    using inv h unfolding ring_inv_def eq by auto
  ultimately show ?thesis
    using inv unfolding ring_inv_def eq by simp
qed

lemma ring_inv_Add_success:
  assumes inv: "ring_inv c" and add: "AddWithVirtualNode c nd v = (None, c')"
  shows "ring_inv c'"
proof -
  from Add_success [OF add] obtain n ps where n: "nd = Some n" "1 \<le> v"
    and free: "nodes c (Key n) = None"
    and al: "add_loop (install_hash c) (Key n) (nat v) 0 (circle c) [] = (circle c', Some ps)"
    and c': "c' = c\<lparr>hash := Some (install_hash c), circle := circle c',
                  hashSortedNodes := sort_Slice (hashSortedNodes c @ ps),
                  nodes := (nodes c)(Key n \<mapsto> \<lparr>node = Some n, virtualNodes = ps\<rparr>)\<rparr>"
    by blast
  let ?k = "Key n"
  let ?e = "\<lparr>node = Some n, virtualNodes = ps\<rparr>"
  from add_loop_Some [OF al] have len: "length ps = nat v" and dps: "distinct ps"
    and disj: "set ps \<inter> dom (circle c) = {}"
    and circ: "circle c' = (\<lambda>p. if p \<in> set ps then Some ?k else circle c p)"
    by auto
  have idx: "hashSortedNodes c' = sort (hashSortedNodes c @ ps)"
    by (subst c') (simp add: sort_Slice_def)
  have nds: "nodes c' = (nodes c)(?k \<mapsto> ?e)"
    by (subst c') simp
  have hsh: "hash c' = Some (install_hash c)"
    by (subst c') simp
  from inv have rok: "registry_ok c" and own: "index_owned c"
    and srt: "sorted (hashSortedNodes c)" and dst: "distinct (hashSortedNodes c)"
    and fin: "finite (dom (nodes c))" and tot: "length (hashSortedNodes c) = replica_total c"
    unfolding ring_inv_def by simp_all
  have idx_dom: "set (hashSortedNodes c) \<subseteq> dom (circle c)"
    using index_in_circle [OF rok own] by blast
  have fresh: "set ps \<inter> set (hashSortedNodes c) = {}"
    using disj idx_dom by blast
  have i1: "sorted (hashSortedNodes c')" by (simp add: idx)
  have i2: "distinct (hashSortedNodes c')" using dst dps fresh by (auto simp: idx)
  have i3: "finite (dom (nodes c'))" using fin by (simp add: nds)
  have i4: "registry_ok c'"
    unfolding registry_ok_def
  proof (intro allI impI)
    fix k e assume ke: "nodes c' k = Some e"
    show "(\<exists>n. node e = Some n \<and> Key n = k) \<and> virtualNodes e \<noteq> [] \<and>
        distinct (virtualNodes e) \<and>
        (\<forall>p \<in> set (virtualNodes e). circle c' p = Some k \<and> p \<in> set (hashSortedNodes c'))"
    proof (cases "k = ?k")
      case True
      with ke have e: "e = ?e" by (simp add: nds)
      have "ps \<noteq> []" using len n(2) by auto
      then show ?thesis using True dps by (simp add: e circ idx)
    next
      case False
      with ke have old: "nodes c k = Some e" by (simp add: nds)
      with rok have props: "(\<exists>n. node e = Some n \<and> Key n = k)" "virtualNodes e \<noteq> []"
        "distinct (virtualNodes e)"
        "\<forall>p \<in> set (virtualNodes e). circle c p = Some k \<and> p \<in> set (hashSortedNodes c)"
        unfolding registry_ok_def by blast+
      have "\<forall>p \<in> set (virtualNodes e). circle c' p = Some k \<and> p \<in> set (hashSortedNodes c')"
      proof
        fix p assume "p \<in> set (virtualNodes e)"
        with props(4) have p: "circle c p = Some k" "p \<in> set (hashSortedNodes c)" by auto
        then have "p \<notin> set ps" using disj by auto
        with p show "circle c' p = Some k \<and> p \<in> set (hashSortedNodes c')"
          by (simp add: circ idx)
      qed
      with props show ?thesis by blast
    qed
  qed
  have i5: "index_owned c'"
    unfolding index_owned_def
  proof
    fix p assume "p \<in> set (hashSortedNodes c')"
    then consider "p \<in> set ps" | "p \<in> set (hashSortedNodes c)" by (auto simp: idx)
    then show "\<exists>k e. nodes c' k = Some e \<and> p \<in> set (virtualNodes e)"
    proof cases
      case 1
      then show ?thesis by (intro exI [of _ ?k] exI [of _ ?e]) (simp add: nds)
    next
      case 2
      with own obtain k e where ke: "nodes c k = Some e" "p \<in> set (virtualNodes e)"
        unfolding index_owned_def by blast
      with free have "k \<noteq> ?k" by auto
      with ke show ?thesis by (intro exI [of _ k] exI [of _ e]) (simp add: nds)
    qed
  qed
  have i6: "length (hashSortedNodes c') = replica_total c'"
  proof -
    have notin: "?k \<notin> dom (nodes c)" using free by (simp add: dom_def)
    have "replica_total c' =
        (\<Sum>k \<in> insert ?k (dom (nodes c)). length (virtualNodes (the (nodes c' k))))"
      by (simp add: replica_total_def nds)
    also have "\<dots> = length ps + (\<Sum>k \<in> dom (nodes c). length (virtualNodes (the (nodes c' k))))"
      using fin notin by (simp add: nds)
    also have "(\<Sum>k \<in> dom (nodes c). length (virtualNodes (the (nodes c' k)))) =
        (\<Sum>k \<in> dom (nodes c). length (virtualNodes (the (nodes c k))))"
      using notin by (intro sum.cong) (auto simp: nds)
    finally show ?thesis using tot by (simp add: idx replica_total_def)
  qed
  show ?thesis
    unfolding ring_inv_def using i1 i2 i3 i4 i5 i6 hsh by simp
qed

lemma ring_inv_Add: "ring_inv c \<Longrightarrow> ring_inv (snd (AddWithVirtualNode c nd v))"
proof -
  assume inv: "ring_inv c"
  obtain r c' where eq: "AddWithVirtualNode c nd v = (r, c')"
    by (cases "AddWithVirtualNode c nd v") blast
  then have "ring_inv c'"
    using inv ring_inv_Add_failure ring_inv_Add_success by (cases r) blast+
  with eq show ?thesis by simp
qed

subsection \<open>The invariant under Remove\<close>

lemma Remove_inv_result:
  assumes inv: "ring_inv c" and found: "nodes c (Key n) = Some e"
  shows "\<exists>hs. Remove c (Some n) =
           (None, c\<lparr>nodes := (nodes c)(Key n := None),
                    circle := delete_loop (circle c) (virtualNodes e),
                    hashSortedNodes := hs\<rparr>) \<and>
           sorted hs \<and> distinct hs \<and>
           set hs = set (hashSortedNodes c) - set (virtualNodes e) \<and>
           length hs + length (virtualNodes e) = length (hashSortedNodes c)"
proof -
  from inv have rok: "registry_ok c"
    and srt: "sorted (hashSortedNodes c)" and dst: "distinct (hashSortedNodes c)"
    unfolding ring_inv_def by simp_all
  from rok found have "distinct (virtualNodes e)"
    "set (virtualNodes e) \<subseteq> set (hashSortedNodes c)"
    unfolding registry_ok_def by blast+
  from remove_loop_spec [OF srt dst this] obtain hs where
    hs: "remove_loop (hashSortedNodes c) (virtualNodes e) = (True, hs)" "sorted hs" "distinct hs"
      "set hs = set (hashSortedNodes c) - set (virtualNodes e)"
      "length hs + length (virtualNodes e) = length (hashSortedNodes c)"
    by blast
  from Remove_found [OF found hs(1)] hs(2-5) show ?thesis by auto
qed

lemma ring_inv_Remove_found:
  assumes inv: "ring_inv c" and found: "nodes c (Key n) = Some e"
  shows "ring_inv (snd (Remove c (Some n)))"
proof -
  let ?k = "Key n"
  let ?vs = "virtualNodes e"
  from Remove_inv_result [OF inv found] obtain hs where
    rm: "Remove c (Some n) =
           (None, c\<lparr>nodes := (nodes c)(?k := None),
                    circle := delete_loop (circle c) ?vs,
                    hashSortedNodes := hs\<rparr>)"
    and hs: "sorted hs" "distinct hs" "set hs = set (hashSortedNodes c) - set ?vs"
      "length hs + length ?vs = length (hashSortedNodes c)"
    by blast
  define c' where "c' = snd (Remove c (Some n))"
  have idx: "hashSortedNodes c' = hs"
    and nds: "nodes c' = (nodes c)(?k := None)"
    and circ: "circle c' = (\<lambda>p. if p \<in> set ?vs then None else circle c p)"
    and hsh: "hash c' = hash c"
    by (simp_all add: c'_def rm delete_loop_eq)
  from inv have rok: "registry_ok c" and own: "index_owned c"
    and fin: "finite (dom (nodes c))" and tot: "length (hashSortedNodes c) = replica_total c"
    and hne: "nodes c \<noteq> Map.empty \<longrightarrow> hash c \<noteq> None"
    unfolding ring_inv_def by simp_all
  have mine: "\<And>p. p \<in> set ?vs \<Longrightarrow> circle c p = Some ?k"
    using rok found unfolding registry_ok_def by blast
  have i3: "finite (dom (nodes c'))" using fin by (simp add: nds)
  have i4: "registry_ok c'"
    unfolding registry_ok_def
  proof (intro allI impI)
    fix k e' assume ke: "nodes c' k = Some e'"
    then have kne: "k \<noteq> ?k" and old: "nodes c k = Some e'"
      by (auto simp: nds split: if_splits)
    with rok have props: "(\<exists>n. node e' = Some n \<and> Key n = k)" "virtualNodes e' \<noteq> []"
      "distinct (virtualNodes e')"
      "\<forall>p \<in> set (virtualNodes e'). circle c p = Some k \<and> p \<in> set (hashSortedNodes c)"
      unfolding registry_ok_def by blast+
    have "\<forall>p \<in> set (virtualNodes e'). circle c' p = Some k \<and> p \<in> set (hashSortedNodes c')"
    proof
      fix p assume "p \<in> set (virtualNodes e')"
      with props(4) have p: "circle c p = Some k" "p \<in> set (hashSortedNodes c)" by auto
      have "p \<notin> set ?vs" using mine p(1) kne by auto
      with p show "circle c' p = Some k \<and> p \<in> set (hashSortedNodes c')"
        by (simp add: circ idx hs(3))
    qed
    with props show "(\<exists>n. node e' = Some n \<and> Key n = k) \<and> virtualNodes e' \<noteq> [] \<and>
        distinct (virtualNodes e') \<and>
        (\<forall>p \<in> set (virtualNodes e'). circle c' p = Some k \<and> p \<in> set (hashSortedNodes c'))"
      by blast
  qed
  have i5: "index_owned c'"
    unfolding index_owned_def
  proof
    fix p assume "p \<in> set (hashSortedNodes c')"
    then have p: "p \<in> set (hashSortedNodes c)" "p \<notin> set ?vs" by (simp_all add: idx hs(3))
    with own obtain k e' where ke: "nodes c k = Some e'" "p \<in> set (virtualNodes e')"
      unfolding index_owned_def by blast
    have "k \<noteq> ?k" using ke found p(2) by auto
    with ke show "\<exists>k e. nodes c' k = Some e \<and> p \<in> set (virtualNodes e)"
      by (intro exI [of _ k] exI [of _ e']) (simp add: nds)
  qed
  have i6: "length (hashSortedNodes c') = replica_total c'"
  proof -
    have kin: "?k \<in> dom (nodes c)" using found by (simp add: dom_def)
    have "replica_total c =
        length ?vs + (\<Sum>k \<in> dom (nodes c) - {?k}. length (virtualNodes (the (nodes c k))))"
      unfolding replica_total_def using fin kin found by (simp add: sum.remove)
    also have "(\<Sum>k \<in> dom (nodes c) - {?k}. length (virtualNodes (the (nodes c k)))) =
        (\<Sum>k \<in> dom (nodes c) - {?k}. length (virtualNodes (the (nodes c' k))))"
      by (intro sum.cong) (auto simp: nds)
    also have "\<dots> = replica_total c'"
      by (simp add: replica_total_def nds)
    finally show ?thesis using tot hs(4) by (simp add: idx)
  qed
  have i7: "nodes c' \<noteq> Map.empty \<longrightarrow> hash c' \<noteq> None"
    using hne found by (auto simp: hsh)
  show ?thesis
    unfolding ring_inv_def c'_def [symmetric] using hs(1,2) i3 i4 i5 i6 i7 by (simp add: idx)
qed

lemma ring_inv_Remove: "ring_inv c \<Longrightarrow> ring_inv (snd (Remove c nd))"
proof (cases nd)
  case None
  assume "ring_inv c"
  then show ?thesis using None by (simp add: Remove_nil)
next
  case (Some n)
  assume inv: "ring_inv c"
  show ?thesis
  proof (cases "nodes c (Key n)")
    case None
    with inv Some show ?thesis by (simp add: Remove_missing)
  next
    case (Some e)
    with inv \<open>nd = Some n\<close> show ?thesis by (simp add: ring_inv_Remove_found)
  qed
qed

lemma reachable_ring_inv: "reachable c \<Longrightarrow> ring_inv c"
  by (induction rule: reachable.induct)
     (simp_all add: ring_inv_new0 ring_inv_new ring_inv_Add ring_inv_Remove)

subsection \<open>Evaluation on the example rings\<close>

text \<open>A known value of CRC-32: the checksum of the single byte \<open>a\<close>.\<close>

lemma ChecksumIEEE_of_a: "ChecksumIEEE ''a'' = 0xE8B7BE43"
  by code_simp

lemma Itoa_small: "Itoa 0 = ''0''" "Itoa 1 = ''1''" "Itoa 2 = ''2''"
  by code_simp+

lemma Search_loop_step:
  "i < j \<Longrightarrow> Search_loop f i j =
     (if \<not> f ((i + j) div 2) then Search_loop f ((i + j) div 2 + 1) j
      else Search_loop f i ((i + j) div 2))"
  by (subst Search_loop.simps) (simp add: Let_def)

lemma Search_loop_end: "\<not> i < j \<Longrightarrow> Search_loop f i j = i"
  by (subst Search_loop.simps) simp

lemmas eval_simps = Itoa_small retry_loop_unfold add_loop_step add_loop_end Search_def
  Search_loop_step Search_loop_end sort_Slice_def toy_hash_def install_hash_def
  Add_def Add_unfold Remove_def delete_loop_eq GetNode_def getPosition_def hashKey_def
  circle_at_def nodes_at_def Let_def

lemma ring0_eq: "ring0 = \<lparr>hashSortedNodes = [], circle = Map.empty, nodes = Map.empty,
    hash = Some toy_hash\<rparr>"
  by (simp add: ring0_def NewConsistentWithCustomHash_def)

lemma ringA_eq: "ringA = \<lparr>hashSortedNodes = [10], circle = [10 \<mapsto> ''a''],
    nodes = [''a'' \<mapsto> \<lparr>node = Some nodeA, virtualNodes = [10]\<rparr>], hash = Some toy_hash\<rparr>"
  by (simp add: ringA_def ring0_eq nodeA_def eval_simps)

lemma ringAB_eq: "ringAB = \<lparr>hashSortedNodes = [10, 20], circle = [10 \<mapsto> ''a'', 20 \<mapsto> ''b''],
    nodes = [''a'' \<mapsto> \<lparr>node = Some nodeA, virtualNodes = [10]\<rparr>,
             ''b'' \<mapsto> \<lparr>node = Some nodeB, virtualNodes = [20]\<rparr>], hash = Some toy_hash\<rparr>"
  by (simp add: ringAB_def ringA_eq nodeB_def eval_simps)

lemma ringABC_eq: "ringABC = \<lparr>hashSortedNodes = [10, 20, 30],
    circle = [10 \<mapsto> ''a'', 20 \<mapsto> ''b'', 30 \<mapsto> ''c''],
    nodes = [''a'' \<mapsto> \<lparr>node = Some nodeA, virtualNodes = [10]\<rparr>,
             ''b'' \<mapsto> \<lparr>node = Some nodeB, virtualNodes = [20]\<rparr>,
             ''c'' \<mapsto> \<lparr>node = Some nodeC, virtualNodes = [30]\<rparr>], hash = Some toy_hash\<rparr>"
  by (simp add: ringABC_def ringAB_eq nodeC_def eval_simps)

lemma reachable_ring0: "reachable ring0"
  unfolding ring0_def by (rule reachable.custom)

lemma reachable_ringA: "reachable ringA"
  unfolding ringA_def Add_def by (rule reachable.add [OF reachable_ring0])

lemma reachable_ringAB: "reachable ringAB"
  unfolding ringAB_def Add_def by (rule reachable.add [OF reachable_ringA])

lemma reachable_ringABC: "reachable ringABC"
  unfolding ringABC_def Add_def by (rule reachable.add [OF reachable_ringAB])

subsection \<open>Consequences of the invariant\<close>

lemma unpopulated_nodes: "unpopulated c \<Longrightarrow> nodes c = Map.empty"
proof (induction rule: unpopulated.induct)
  case fresh
  show ?case by (simp add: NewConsistentHash_def)
next
  case (add_failed c nd v e c')
  then show ?case using Add_failure by metis
next
  case (removed c nd)
  show ?case
  proof (cases nd)
    case None
    with removed show ?thesis by (simp add: Remove_nil)
  next
    case (Some n)
    with removed show ?thesis by (simp add: Remove_missing)
  qed
qed

lemma getPosition_selects:
  assumes srt: "sorted hs" and dst: "distinct hs" and ne: "hs \<noteq> []"
    and hs: "hashSortedNodes c = hs"
  shows "0 \<le> getPosition c x \<and> getPosition c x < int (length hs) \<and>
         hs ! nat (getPosition c x) = spec_selected_position hs x"
proof -
  let ?r = "Search (length hs) (\<lambda>i. x \<le> hs ! i)"
  let ?n = "length hs"
  have n: "0 < ?n" using ne by simp
  have last: "last hs = hs ! (?n - 1)" using ne by (rule last_conv_nth)
  have rle: "?r \<le> ?n" and below: "\<forall>k < ?r. hs ! k < x"
    and above: "\<forall>k. ?r \<le> k \<longrightarrow> k < ?n \<longrightarrow> x \<le> hs ! k"
    using Search_ge_spec [OF srt, of x] by blast+
  show ?thesis
  proof (cases "?r < ?n")
    case False
    with rle have r: "?r = ?n" by simp
    have gp: "getPosition c x = int ?n - 1"
      using False by (simp add: getPosition_def hs Let_def)
    have "\<forall>y \<in> set hs. \<not> x \<le> y"
    proof
      fix y assume "y \<in> set hs"
      then obtain m where "m < ?n" "hs ! m = y" by (auto simp: in_set_conv_nth)
      with below r show "\<not> x \<le> y" by (auto simp: not_le)
    qed
    then have "filter (\<lambda>p. x \<le> p) hs = []" by (simp add: filter_empty_conv)
    then have "spec_selected_position hs x = last hs"
      by (simp add: spec_selected_position_def)
    moreover have "nat (getPosition c x) = ?n - 1" using gp n by simp
    ultimately show ?thesis using gp n last by simp
  next
    case True
    let ?cands = "filter (\<lambda>p. x \<le> p) hs"
    have rin: "hs ! ?r \<in> set ?cands" using True above by simp
    then have cne: "?cands \<noteq> []" by (metis empty_iff empty_set)
    have "Min (set ?cands) = hs ! ?r"
    proof (rule Min_eqI)
      show "finite (set ?cands)" by simp
      show "hs ! ?r \<in> set ?cands" by (rule rin)
      fix y assume "y \<in> set ?cands"
      then have y: "y \<in> set hs" "x \<le> y" by simp_all
      then obtain m where m: "m < ?n" "hs ! m = y" by (auto simp: in_set_conv_nth)
      have "\<not> m < ?r" using below m(2) y(2) by auto
      then have "?r \<le> m" by simp
      with srt m show "hs ! ?r \<le> y" by (auto simp: sorted_nth_mono)
    qed
    then have mineq: "Min (set ?cands) = hs ! ?r" .
    have islast: "hs ! ?r = last hs \<longleftrightarrow> ?r = ?n - 1"
      unfolding last using dst True n by (simp add: nth_eq_iff_index_eq)
    show ?thesis
    proof (cases "?r = ?n - 1")
      case r: True
      have "int ?r = int ?n - 1" using r n by linarith
      then have gp: "getPosition c x = 0"
        using True by (simp add: getPosition_def hs Let_def)
      have "spec_selected_position hs x = hs ! 0"
        using cne mineq islast r by (simp add: spec_selected_position_def Let_def)
      with gp n show ?thesis by simp
    next
      case r: False
      have "int ?r \<noteq> int ?n - 1" using r n by linarith
      then have gp: "getPosition c x = int ?r"
        using True by (simp add: getPosition_def hs Let_def)
      have "spec_selected_position hs x = hs ! ?r"
        using cne mineq islast r by (simp add: spec_selected_position_def Let_def)
      with gp True show ?thesis by simp
    qed
  qed
qed

lemma GetNode_inv:
  assumes inv: "ring_inv c" and ne: "nodes c \<noteq> Map.empty"
  shows "\<exists>h k e n. hash c = Some h \<and>
           circle c (spec_selected_position (hashSortedNodes c) (h key)) = Some k \<and>
           nodes c k = Some e \<and> node e = Some n \<and> Key n = k \<and>
           GetNode c key = Inr (Some n)"
proof -
  from inv have rok: "registry_ok c" and own: "index_owned c"
    and srt: "sorted (hashSortedNodes c)" and dst: "distinct (hashSortedNodes c)"
    unfolding ring_inv_def by simp_all
  from inv ne obtain h where h: "hash c = Some h"
    unfolding ring_inv_def by auto
  from ne obtain k0 e0 where "nodes c k0 = Some e0" by (metis not_Some_eq)
  with rok have "virtualNodes e0 \<noteq> []"
    "set (virtualNodes e0) \<subseteq> set (hashSortedNodes c)"
    unfolding registry_ok_def by blast+
  then have idxne: "hashSortedNodes c \<noteq> []" by auto
  let ?hs = "hashSortedNodes c"
  let ?i = "getPosition c (h key)"
  let ?p = "spec_selected_position ?hs (h key)"
  from getPosition_selects [OF srt dst idxne refl, of "h key"]
  have rng: "0 \<le> ?i" "?i < int (length ?hs)" and sel: "?hs ! nat ?i = ?p"
    by simp_all
  then have "?p \<in> set ?hs" by (metis nat_less_iff nth_mem)
  from index_in_circle [OF rok own this] obtain k e where
    ke: "nodes c k = Some e" "circle c ?p = Some k" by blast
  with rok obtain n where n: "node e = Some n" "Key n = k"
    unfolding registry_ok_def by blast
  have "GetNode c key = Inr (node (nodes_at c (circle_at c (?hs ! nat ?i))))"
    using ne h rng by (simp add: GetNode_def hashKey_def Let_def)
  also have "\<dots> = Inr (Some n)"
    using ke n by (simp add: sel circle_at_def nodes_at_def)
  finally show ?thesis using h ke n by blast
qed

lemma nth_notin_take:
  assumes "distinct ps" "i < length ps"
  shows "ps ! i \<notin> set (take i ps)"
proof
  assume "ps ! i \<in> set (take i ps)"
  then obtain m where m: "m < length (take i ps)" "take i ps ! m = ps ! i"
    by (auto simp: in_set_conv_nth)
  then have "m < i" "ps ! m = ps ! i" by simp_all
  with assms show False by (simp add: nth_eq_iff_index_eq)
qed

section \<open>The properties of the specification\<close>

text \<open>
  C1 (atomicity of a failed \<open>Add\<close>). The specification asks that an \<open>Add\<close> that fails with a hash
  collision leave the Position Index, the Position Map and the Node Registry as they
  were. The source writes every replica it has placed into \<open>circle\<close> before it tries the
  next one and returns on the collision without taking them out again: on the empty ring
  with \<open>toy_hash\<close>, adding \<open>nodeD\<close> with two replicas places replica 0 at position 25,
  fails on replica 1 (all three candidates are 25), and position 25 stays in \<open>circle\<close>.
\<close>

theorem Add_collision_leaks_circle:
  "reachable ring0 \<and>
   fst (AddWithVirtualNode ring0 (Some nodeD) 2) = Some (HashCollision ''d'') \<and>
   circle ring0 25 = None \<and>
   circle (snd (AddWithVirtualNode ring0 (Some nodeD) 2)) 25 = Some ''d'' \<and>
   circle (snd (AddWithVirtualNode ring0 (Some nodeD) 2)) \<noteq> circle ring0"
proof -
  have r: "AddWithVirtualNode ring0 (Some nodeD) 2 =
      (Some (HashCollision ''d''), ring0\<lparr>circle := [25 \<mapsto> ''d'']\<rparr>)"
    by (simp add: ring0_eq nodeD_def eval_simps)
  have "circle (ring0\<lparr>circle := [25 \<mapsto> ''d'']\<rparr>) 25 \<noteq> circle ring0 25"
    by (simp add: ring0_eq)
  then have "circle (ring0\<lparr>circle := [25 \<mapsto> ''d'']\<rparr>) \<noteq> circle ring0"
    by metis
  then show ?thesis using reachable_ring0 by (simp add: r) (simp add: ring0_eq)
qed

text \<open>
  C2 (the selection rule). In a reachable ring with at least one registered node,
  \<open>GetNode\<close> returns the node that the registry holds under the key that \<open>circle\<close> assigns
  to the position the specification selects: the smallest entry \<open>\<ge>\<close> the hash of the key,
  position 0 if that entry is the last one, the last entry if there is none.
\<close>

theorem GetNode_selects_spec_position:
  "reachable c \<Longrightarrow> nodes c \<noteq> Map.empty \<Longrightarrow>
     \<exists>h k e n. hash c = Some h \<and>
       circle c (spec_selected_position (hashSortedNodes c) (h key)) = Some k \<and>
       nodes c k = Some e \<and> node e = Some n \<and> GetNode c key = Inr (Some n)"
  using GetNode_inv [OF reachable_ring_inv, of c key] by blast

theorem GetNode_selects_spec_position_witness:
  "reachable ringABC \<and> nodes ringABC \<noteq> Map.empty \<and>
   (\<exists>h k e n. hash ringABC = Some h \<and>
       circle ringABC (spec_selected_position (hashSortedNodes ringABC) (h ''k'')) = Some k \<and>
       nodes ringABC k = Some e \<and> node e = Some n \<and> GetNode ringABC ''k'' = Inr (Some n)) \<and>
   spec_selected_position (hashSortedNodes ringABC) (toy_hash ''k'') = 10 \<and>
   spec_selected_position (hashSortedNodes ringABC) (toy_hash ''b00'') = 20 \<and>
   spec_selected_position (hashSortedNodes ringAB) (toy_hash ''k'') = 20 \<and>
   GetNode ringABC ''k'' = Inr (Some nodeA)"
proof -
  have ne: "nodes ringABC \<noteq> Map.empty" by (simp add: ringABC_eq)
  have g: "GetNode ringABC ''k'' = Inr (Some nodeA)" by (simp add: ringABC_eq eval_simps)
  have s1: "spec_selected_position (hashSortedNodes ringABC) (toy_hash ''k'') = 10"
    by (simp add: ringABC_eq spec_selected_position_def toy_hash_def)
  have s2: "spec_selected_position (hashSortedNodes ringABC) (toy_hash ''b00'') = 20"
    by (simp add: ringABC_eq spec_selected_position_def toy_hash_def)
  have s3: "spec_selected_position (hashSortedNodes ringAB) (toy_hash ''k'') = 20"
    by (simp add: ringAB_eq spec_selected_position_def toy_hash_def)
  from GetNode_selects_spec_position [OF reachable_ringABC ne, of "''k''"]
    reachable_ringABC ne g s1 s2 s3
  show ?thesis by blast
qed

text \<open>
  C3 (minimal disruption). The specification says that removing a node \<open>X\<close> leaves every key
  with the owner \<open>Y \<noteq> X\<close> it had. In the ring with \<open>nodeA\<close> at 10, \<open>nodeB\<close> at 20 and
  \<open>nodeC\<close> at 30, the key \<open>k\<close> (hash 25) resolves to \<open>nodeA\<close>, because the search hits the
  last index and \<open>getPosition\<close> turns that into index 0; after \<open>nodeC\<close> is removed the
  search finds nothing and the key resolves to \<open>nodeB\<close>.
\<close>

theorem Remove_other_node_changes_owner:
  "reachable ringABC \<and> GetNode ringABC ''k'' = Inr (Some nodeA) \<and> nodeC \<noteq> nodeA \<and>
   fst (Remove ringABC (Some nodeC)) = None \<and>
   GetNode (snd (Remove ringABC (Some nodeC))) ''k'' = Inr (Some nodeB) \<and> nodeB \<noteq> nodeA"
  using reachable_ringABC by (simp add: ringABC_eq eval_simps nodeA_def nodeB_def nodeC_def)

text \<open>
  C4 (coverage). In a reachable ring with at least one registered node, \<open>GetNode\<close> returns
  no error and no nil node for any key, and the node it returns is the one the registry
  holds under that node's key.
\<close>

theorem GetNode_returns_registered_node:
  "reachable c \<Longrightarrow> nodes c \<noteq> Map.empty \<Longrightarrow>
     \<exists>n e. GetNode c key = Inr (Some n) \<and> nodes c (Key n) = Some e \<and> node e = Some n"
  using GetNode_inv [OF reachable_ring_inv, of c key] by blast

theorem GetNode_returns_registered_node_witness:
  "reachable ringAB \<and> nodes ringAB \<noteq> Map.empty \<and>
   (\<exists>n e. GetNode ringAB ''k'' = Inr (Some n) \<and> nodes ringAB (Key n) = Some e \<and>
      node e = Some n) \<and>
   GetNode ringAB ''k'' = Inr (Some nodeB)"
proof -
  have ne: "nodes ringAB \<noteq> Map.empty" by (simp add: ringAB_eq)
  have g: "GetNode ringAB ''k'' = Inr (Some nodeB)" by (simp add: ringAB_eq eval_simps)
  from GetNode_returns_registered_node [OF reachable_ringAB ne, of "''k''"] reachable_ringAB ne g
  show ?thesis by blast
qed

text \<open>
  C5 (\<open>Remove\<close> undoes \<open>Add\<close>). In a reachable ring where the node is not registered, a
  successful \<open>AddWithVirtualNode\<close> followed by \<open>Remove\<close> of the same node succeeds and
  gives back the Position Index, the Position Map and the Node Registry of the ring before
  the \<open>Add\<close>.
\<close>

theorem Add_then_Remove_restores:
  assumes reach: "reachable c" and unreg: "nodes c (Key n) = None"
    and add: "AddWithVirtualNode c (Some n) v = (None, c')"
  shows "\<exists>c''. Remove c' (Some n) = (None, c'') \<and>
           hashSortedNodes c'' = hashSortedNodes c \<and> circle c'' = circle c \<and>
           nodes c'' = nodes c"
proof -
  have inv: "ring_inv c" using reach by (rule reachable_ring_inv)
  have inv': "ring_inv c'" using inv add by (rule ring_inv_Add_success)
  from Add_success [OF add] obtain ps where
    al: "add_loop (install_hash c) (Key n) (nat v) 0 (circle c) [] = (circle c', Some ps)"
    and c': "c' = c\<lparr>hash := Some (install_hash c), circle := circle c',
                  hashSortedNodes := sort_Slice (hashSortedNodes c @ ps),
                  nodes := (nodes c)(Key n \<mapsto> \<lparr>node = Some n, virtualNodes = ps\<rparr>)\<rparr>"
    by auto
  let ?e = "\<lparr>node = Some n, virtualNodes = ps\<rparr>"
  from add_loop_Some [OF al] have disj: "set ps \<inter> dom (circle c) = {}"
    and circ: "circle c' = (\<lambda>p. if p \<in> set ps then Some (Key n) else circle c p)"
    by auto
  have idx: "hashSortedNodes c' = sort (hashSortedNodes c @ ps)"
    by (subst c') (simp add: sort_Slice_def)
  have nds: "nodes c' = (nodes c)(Key n \<mapsto> ?e)"
    by (subst c') simp
  have found: "nodes c' (Key n) = Some ?e" by (simp add: nds)
  from inv have rok: "registry_ok c" and own: "index_owned c"
    and srt: "sorted (hashSortedNodes c)" and dst: "distinct (hashSortedNodes c)"
    unfolding ring_inv_def by simp_all
  have "set (hashSortedNodes c) \<subseteq> dom (circle c)"
    using index_in_circle [OF rok own] by blast
  then have fresh: "set (hashSortedNodes c) \<inter> set ps = {}" using disj by blast
  from Remove_inv_result [OF inv' found] obtain hs where
    rm: "Remove c' (Some n) =
           (None, c'\<lparr>nodes := (nodes c')(Key n := None),
                     circle := delete_loop (circle c') (virtualNodes ?e),
                     hashSortedNodes := hs\<rparr>)"
    and hs: "sorted hs" "distinct hs"
      "set hs = set (hashSortedNodes c') - set (virtualNodes ?e)"
    by blast
  have "set hs = set (hashSortedNodes c)" using hs(3) fresh by (auto simp: idx)
  with hs(1,2) srt dst have r1: "hs = hashSortedNodes c"
    by (simp add: sorted_distinct_set_unique)
  have r2: "delete_loop (circle c') (virtualNodes ?e) = circle c"
  proof
    fix p
    have "p \<in> set ps \<Longrightarrow> circle c p = None" using disj by (auto simp: dom_def)
    then show "delete_loop (circle c') (virtualNodes ?e) p = circle c p"
      by (simp add: delete_loop_eq circ)
  qed
  have r3: "(nodes c')(Key n := None) = nodes c"
    using unreg by (auto simp: nds)
  show ?thesis using rm r1 r2 r3 by simp
qed

theorem Add_then_Remove_restores_witness:
  "reachable ringA \<and> nodes ringA (Key nodeE) = None \<and>
   AddWithVirtualNode ringA (Some nodeE) 2 =
     (None, \<lparr>hashSortedNodes = [10, 25, 40], circle = [10 \<mapsto> ''a'', 40 \<mapsto> ''e'', 25 \<mapsto> ''e''],
        nodes = [''a'' \<mapsto> \<lparr>node = Some nodeA, virtualNodes = [10]\<rparr>,
                 ''e'' \<mapsto> \<lparr>node = Some nodeE, virtualNodes = [40, 25]\<rparr>],
        hash = Some toy_hash\<rparr>) \<and>
   (\<exists>c''. Remove (snd (AddWithVirtualNode ringA (Some nodeE) 2)) (Some nodeE) = (None, c'') \<and>
      hashSortedNodes c'' = hashSortedNodes ringA \<and> circle c'' = circle ringA \<and>
      nodes c'' = nodes ringA)"
proof -
  have unreg: "nodes ringA (Key nodeE) = None" by (simp add: ringA_eq nodeE_def)
  have add: "AddWithVirtualNode ringA (Some nodeE) 2 =
     (None, \<lparr>hashSortedNodes = [10, 25, 40], circle = [10 \<mapsto> ''a'', 40 \<mapsto> ''e'', 25 \<mapsto> ''e''],
        nodes = [''a'' \<mapsto> \<lparr>node = Some nodeA, virtualNodes = [10]\<rparr>,
                 ''e'' \<mapsto> \<lparr>node = Some nodeE, virtualNodes = [40, 25]\<rparr>],
        hash = Some toy_hash\<rparr>)"
    by (simp add: ringA_eq nodeE_def eval_simps)
  from Add_then_Remove_restores [OF reachable_ringA unreg add] reachable_ringA unreg add
  show ?thesis by simp
qed

text \<open>
  C6 (placement of the replicas). After a successful \<open>AddWithVirtualNode\<close> with count
  \<open>v\<close> the registry entry of the node lists exactly \<open>v\<close> positions, and the position of
  replica \<open>i\<close> is the hash of key, \<open>i\<close> and \<open>j\<close> in decimal for the least \<open>j < 3\<close> whose
  hash was free when replica \<open>i\<close> was placed, that is, neither a key of \<open>circle\<close> before the
  call nor the position of an earlier replica of this call. The hash is the ring's own,
  or the CRC-32 checksum when the ring had none.
\<close>

theorem Add_places_first_free_candidate:
  assumes add: "AddWithVirtualNode c (Some n) v = (None, c')"
  shows "\<exists>h ps. hash c' = Some h \<and> h = install_hash c \<and>
           nodes c' (Key n) = Some \<lparr>node = Some n, virtualNodes = ps\<rparr> \<and>
           int (length ps) = v \<and>
           (\<forall>i<length ps. \<exists>j<3.
              ps ! i = h (Key n @ Itoa (int i) @ Itoa (int j)) \<and>
              ps ! i \<notin> dom (circle c) \<union> set (take i ps) \<and>
              (\<forall>j'<j. h (Key n @ Itoa (int i) @ Itoa (int j'))
                        \<in> dom (circle c) \<union> set (take i ps)))"
proof -
  let ?h = "install_hash c"
  from Add_success [OF add] obtain ps where v: "1 \<le> v"
    and al: "add_loop ?h (Key n) (nat v) 0 (circle c) [] = (circle c', Some ps)"
    and c': "c' = c\<lparr>hash := Some ?h, circle := circle c',
                  hashSortedNodes := sort_Slice (hashSortedNodes c @ ps),
                  nodes := (nodes c)(Key n \<mapsto> \<lparr>node = Some n, virtualNodes = ps\<rparr>)\<rparr>"
    by auto
  from add_loop_Some [OF al] have len: "length ps = nat v" and dps: "distinct ps"
    and disj: "set ps \<inter> dom (circle c) = {}"
    and first: "\<forall>m<length ps. \<exists>j<3. ps ! m = ?h (Key n @ Itoa (int (0 + m)) @ Itoa (int j)) \<and>
        (\<forall>j'<j. ?h (Key n @ Itoa (int (0 + m)) @ Itoa (int j')) \<in> dom (circle c) \<union> set (take m ps))"
    by auto
  have h: "hash c' = Some ?h" by (subst c') simp
  have e: "nodes c' (Key n) = Some \<lparr>node = Some n, virtualNodes = ps\<rparr>" by (subst c') simp
  have l: "int (length ps) = v" using len v by simp
  have "\<forall>i<length ps. \<exists>j<3.
          ps ! i = ?h (Key n @ Itoa (int i) @ Itoa (int j)) \<and>
          ps ! i \<notin> dom (circle c) \<union> set (take i ps) \<and>
          (\<forall>j'<j. ?h (Key n @ Itoa (int i) @ Itoa (int j')) \<in> dom (circle c) \<union> set (take i ps))"
  proof (intro allI impI)
    fix i assume i: "i < length ps"
    with first obtain j where j: "j < 3" "ps ! i = ?h (Key n @ Itoa (int i) @ Itoa (int j))"
      "\<forall>j'<j. ?h (Key n @ Itoa (int i) @ Itoa (int j')) \<in> dom (circle c) \<union> set (take i ps)"
      by auto
    have "ps ! i \<notin> dom (circle c)" using disj i by (meson disjoint_iff nth_mem)
    moreover have "ps ! i \<notin> set (take i ps)" using dps i by (rule nth_notin_take)
    ultimately show "\<exists>j<3.
          ps ! i = ?h (Key n @ Itoa (int i) @ Itoa (int j)) \<and>
          ps ! i \<notin> dom (circle c) \<union> set (take i ps) \<and>
          (\<forall>j'<j. ?h (Key n @ Itoa (int i) @ Itoa (int j')) \<in> dom (circle c) \<union> set (take i ps))"
      using j by blast
  qed
  with h e l show ?thesis by blast
qed

theorem Add_places_first_free_candidate_witness:
  "fst (AddWithVirtualNode ringA (Some nodeE) 2) = None \<and>
   nodes (snd (AddWithVirtualNode ringA (Some nodeE) 2)) (Key nodeE) =
     Some \<lparr>node = Some nodeE, virtualNodes = [40, 25]\<rparr> \<and>
   toy_hash (Key nodeE @ Itoa 0 @ Itoa 0) = 10 \<and> circle ringA 10 = Some ''a'' \<and>
   toy_hash (Key nodeE @ Itoa 0 @ Itoa 1) = 40 \<and>
   toy_hash (Key nodeE @ Itoa 1 @ Itoa 0) = 25 \<and>
   (\<exists>h ps. hash (snd (AddWithVirtualNode ringA (Some nodeE) 2)) = Some h \<and>
      h = install_hash ringA \<and>
      nodes (snd (AddWithVirtualNode ringA (Some nodeE) 2)) (Key nodeE) =
        Some \<lparr>node = Some nodeE, virtualNodes = ps\<rparr> \<and>
      int (length ps) = 2 \<and>
      (\<forall>i<length ps. \<exists>j<3.
         ps ! i = h (Key nodeE @ Itoa (int i) @ Itoa (int j)) \<and>
         ps ! i \<notin> dom (circle ringA) \<union> set (take i ps) \<and>
         (\<forall>j'<j. h (Key nodeE @ Itoa (int i) @ Itoa (int j'))
                   \<in> dom (circle ringA) \<union> set (take i ps))))"
proof -
  let ?c' = "\<lparr>hashSortedNodes = [10, 25, 40], circle = [10 \<mapsto> ''a'', 40 \<mapsto> ''e'', 25 \<mapsto> ''e''],
        nodes = [''a'' \<mapsto> \<lparr>node = Some nodeA, virtualNodes = [10]\<rparr>,
                 ''e'' \<mapsto> \<lparr>node = Some nodeE, virtualNodes = [40, 25]\<rparr>],
        hash = Some toy_hash\<rparr>"
  have add: "AddWithVirtualNode ringA (Some nodeE) 2 = (None, ?c')"
    by (simp add: ringA_eq nodeE_def eval_simps)
  have vals: "toy_hash (Key nodeE @ Itoa 0 @ Itoa 0) = 10" "circle ringA 10 = Some ''a''"
    "toy_hash (Key nodeE @ Itoa 0 @ Itoa 1) = 40" "toy_hash (Key nodeE @ Itoa 1 @ Itoa 0) = 25"
    by (simp_all add: ringA_eq nodeE_def Itoa_small toy_hash_def)
  have e: "nodes ?c' (Key nodeE) = Some \<lparr>node = Some nodeE, virtualNodes = [40, 25]\<rparr>"
    by (simp add: nodeE_def)
  from Add_places_first_free_candidate [OF add] vals e show ?thesis
    unfolding add by simp
qed

text \<open>
  C7 (a key beyond every position). In a reachable ring with at least one registered
  node, a key whose hash is greater than every position of the index resolves to the
  owner of the last position of the index, which is the largest: the binary search finds
  nothing and \<open>getPosition\<close> returns \<open>len - 1\<close>.
\<close>

theorem GetNode_beyond_last_selects_last:
  assumes reach: "reachable c" and ne: "nodes c \<noteq> Map.empty"
    and h: "hash c = Some h"
    and beyond: "\<forall>p \<in> set (hashSortedNodes c). p < h key"
  shows "\<exists>k e n. circle c (last (hashSortedNodes c)) = Some k \<and> nodes c k = Some e \<and>
           node e = Some n \<and> GetNode c key = Inr (Some n) \<and>
           (\<forall>p \<in> set (hashSortedNodes c). p \<le> last (hashSortedNodes c))"
proof -
  have inv: "ring_inv c" using reach by (rule reachable_ring_inv)
  from GetNode_inv [OF inv ne, of key] h obtain k e n where
    sel: "circle c (spec_selected_position (hashSortedNodes c) (h key)) = Some k"
    and ke: "nodes c k = Some e" "node e = Some n" "GetNode c key = Inr (Some n)"
    by auto
  have "filter (\<lambda>p. h key \<le> p) (hashSortedNodes c) = []"
    using beyond by (auto simp: filter_empty_conv)
  then have "spec_selected_position (hashSortedNodes c) (h key) = last (hashSortedNodes c)"
    by (simp add: spec_selected_position_def)
  with sel have c: "circle c (last (hashSortedNodes c)) = Some k" by simp
  have srt: "sorted (hashSortedNodes c)" using inv by (simp add: ring_inv_def)
  have "\<forall>p \<in> set (hashSortedNodes c). p \<le> last (hashSortedNodes c)"
  proof
    fix p assume "p \<in> set (hashSortedNodes c)"
    then obtain m where m: "m < length (hashSortedNodes c)" "hashSortedNodes c ! m = p"
      by (auto simp: in_set_conv_nth)
    then have "hashSortedNodes c \<noteq> []" by auto
    then have "last (hashSortedNodes c) = hashSortedNodes c ! (length (hashSortedNodes c) - 1)"
      by (rule last_conv_nth)
    moreover have "hashSortedNodes c ! m \<le> hashSortedNodes c ! (length (hashSortedNodes c) - 1)"
      using srt m(1) by (intro sorted_nth_mono) simp_all
    ultimately show "p \<le> last (hashSortedNodes c)" using m(2) by simp
  qed
  with c ke show ?thesis by blast
qed

theorem GetNode_beyond_last_selects_last_witness:
  "reachable ringAB \<and> nodes ringAB \<noteq> Map.empty \<and> hash ringAB = Some toy_hash \<and>
   hashSortedNodes ringAB = [10, 20] \<and> 10 < toy_hash ''k'' \<and> 20 < toy_hash ''k'' \<and>
   last (hashSortedNodes ringAB) = 20 \<and>
   (\<exists>k e n. circle ringAB (last (hashSortedNodes ringAB)) = Some k \<and>
      nodes ringAB k = Some e \<and> node e = Some n \<and> GetNode ringAB ''k'' = Inr (Some n) \<and>
      (\<forall>p \<in> set (hashSortedNodes ringAB). p \<le> last (hashSortedNodes ringAB))) \<and>
   GetNode ringAB ''k'' = Inr (Some nodeB)"
proof -
  have ne: "nodes ringAB \<noteq> Map.empty" by (simp add: ringAB_eq)
  have h: "hash ringAB = Some toy_hash" by (simp add: ringAB_eq)
  have beyond: "\<forall>p \<in> set (hashSortedNodes ringAB). p < toy_hash ''k''"
    by (simp add: ringAB_eq toy_hash_def)
  have l: "last (hashSortedNodes ringAB) = 20" by (simp add: ringAB_eq)
  have g: "GetNode ringAB ''k'' = Inr (Some nodeB)" by (simp add: ringAB_eq eval_simps)
  have idx: "hashSortedNodes ringAB = [10, 20]" by (simp add: ringAB_eq)
  have lt: "10 < toy_hash ''k''" "20 < toy_hash ''k''" by (simp_all add: toy_hash_def)
  from GetNode_beyond_last_selects_last [OF reachable_ringAB ne h beyond]
    reachable_ringAB ne h idx lt l g
  show ?thesis by blast
qed

text \<open>
  The specification's overview has such a key wrap to the first (smallest) position
  instead. In the ring with \<open>nodeA\<close> at 10 and \<open>nodeB\<close> at 20 the key \<open>k\<close> hashes to 25,
  beyond both positions, and \<open>GetNode\<close> returns \<open>nodeB\<close>, the owner of position 20, not
  \<open>nodeA\<close>, the owner of the first position 10.
\<close>

theorem GetNode_wraps_to_first_counterexample:
  "reachable ringAB \<and> hashSortedNodes ringAB = [10, 20] \<and> toy_hash ''k'' = 25 \<and>
   (10 :: uint32) < 25 \<and> (20 :: uint32) < 25 \<and>
   circle ringAB 10 = Some ''a'' \<and> circle ringAB 20 = Some ''b'' \<and>
   nodes ringAB ''a'' = Some \<lparr>node = Some nodeA, virtualNodes = [10]\<rparr> \<and>
   nodes ringAB ''b'' = Some \<lparr>node = Some nodeB, virtualNodes = [20]\<rparr> \<and>
   GetNode ringAB ''k'' = Inr (Some nodeB) \<and> GetNode ringAB ''k'' \<noteq> Inr (Some nodeA)"
  using reachable_ringAB by (simp add: ringAB_eq eval_simps nodeA_def nodeB_def)

text \<open>
  C8. In every ring reachable from a constructor through calls of \<open>AddWithVirtualNode\<close>
  and \<open>Remove\<close>, whatever they returned, the Position Index is sorted ascending, has no
  duplicates, and is as long as the sum of the replica counts of the registered nodes.
\<close>

theorem reachable_index_sorted_distinct_total:
  "reachable c \<Longrightarrow>
     sorted (hashSortedNodes c) \<and> distinct (hashSortedNodes c) \<and>
     length (hashSortedNodes c) = replica_total c"
  using reachable_ring_inv [of c] by (simp add: ring_inv_def)

theorem reachable_index_sorted_distinct_total_witness:
  "reachable ringABC \<and> sorted (hashSortedNodes ringABC) \<and> distinct (hashSortedNodes ringABC) \<and>
   length (hashSortedNodes ringABC) = replica_total ringABC \<and> replica_total ringABC = 3"
proof -
  have "replica_total ringABC = 3"
    by (simp add: replica_total_def ringABC_eq)
  with reachable_index_sorted_distinct_total [OF reachable_ringABC] reachable_ringABC
  show ?thesis by simp
qed

text \<open>
  C9. \<open>Remove\<close> of a node whose key is not in the registry returns the not-found error and
  the ring it was given, unchanged in every field.
\<close>

theorem Remove_unregistered_unchanged:
  "nodes c (Key n) = None \<Longrightarrow> Remove c (Some n) = (Some (NodeNotFound (Key n)), c)"
  by (simp add: Remove_def)

theorem Remove_unregistered_unchanged_witness:
  "nodes ringA (Key nodeB) = None \<and>
   Remove ringA (Some nodeB) = (Some (NodeNotFound (Key nodeB)), ringA)"
proof -
  have h: "nodes ringA (Key nodeB) = None" by (simp add: ringA_eq nodeB_def)
  from Remove_unregistered_unchanged [OF h] h show ?thesis by simp
qed

text \<open>
  C10. On a ring built by \<open>NewConsistentHash\<close> on which no \<open>AddWithVirtualNode\<close> has
  succeeded, \<open>GetNode\<close> returns the empty-ring error for every key, and it does so
  whatever the field \<open>hash\<close> holds, the nil function included, whose call would be a
  panic: the check of the registry comes before the hash is computed.
\<close>

theorem GetNode_unpopulated:
  "unpopulated c \<Longrightarrow>
     GetNode c key = Inl EmptyRing \<and> GetNode (c\<lparr>hash := None\<rparr>) key = Inl EmptyRing"
  by (simp add: GetNode_def unpopulated_nodes)

theorem GetNode_unpopulated_witness:
  "unpopulated (snd (AddWithVirtualNode NewConsistentHash (Some nodeA) 0)) \<and>
   hash (snd (AddWithVirtualNode NewConsistentHash (Some nodeA) 0)) = None \<and>
   GetNode (snd (AddWithVirtualNode NewConsistentHash (Some nodeA) 0)) ''k'' = Inl EmptyRing"
proof -
  let ?c = "snd (AddWithVirtualNode NewConsistentHash (Some nodeA) 0)"
  have r: "AddWithVirtualNode NewConsistentHash (Some nodeA) 0 =
      (Some CountLessThanOne, NewConsistentHash)"
    by (simp add: Add_unfold)
  have u: "unpopulated ?c"
    using unpopulated.add_failed [OF unpopulated.fresh r] by (simp add: r)
  have h: "hash ?c = None"
    unfolding r by (simp add: NewConsistentHash_def)
  from GetNode_unpopulated [OF u, of "''k''"] u h show ?thesis
    by simp
qed

end
